theory Spec2Isabelle
  imports Main
begin

section \<open>File Eraser: the erase engine, the batch worker and the target resolver\<close>

text \<open>
  A shallow embedding of \<^verbatim>\<open>main.py\<close>: \<^verbatim>\<open>erase_file\<close>, \<^verbatim>\<open>EraseWorker\<close> and
  \<^verbatim>\<open>get_all_files\<close>. Everything the Python does to the outside (the file system, the
  logger, the Qt signals, the random source) is a field of an explicit \<open>world\<close>, and every
  function that can raise returns \<open>exn + 'a\<close> next to the world it leaves behind.
\<close>

subsection \<open>Paths, bytes and the outside world\<close>

text \<open>
  A \<^verbatim>\<open>pathlib.Path\<close> is the list of its components (\<^verbatim>\<open>Path.parts\<close>), the first of
  which is \<^verbatim>\<open>/\<close> when the path is absolute; \<^verbatim>\<open>bytes\<close> are a character list, so
  \<^verbatim>\<open>len\<close> is \<open>length\<close> and \<^verbatim>\<open>b[:n]\<close> is \<open>take n\<close>.
\<close>

type_synonym path = "string list"
type_synonym bytes = string

fun join_parts :: "string list \<Rightarrow> string" where
  "join_parts [] = []"
| "join_parts [c] = c"
| "join_parts (c # cs) = c @ ''/'' @ join_parts cs"

text \<open>
  \<^verbatim>\<open>str(path)\<close>: the parts joined by slashes after the root, \<^verbatim>\<open>.\<close> for the empty
  path. \<^verbatim>\<open>path.name\<close>: the last part, which the root is not.
\<close>

fun str_path :: "path \<Rightarrow> string" where
  "str_path [] = ''.''"
| "str_path (c # cs) = (if c = ''/'' then ''/'' @ join_parts cs else join_parts (c # cs))"

fun name :: "path \<Rightarrow> string" where
  "name [] = []"
| "name [c] = (if c = ''/'' then [] else c)"
| "name (c # cs) = last cs"

datatype entry = RegFile bytes | Directory

text \<open>
  The exceptions the modelled operations raise. Both are subclasses of \<^verbatim>\<open>Exception\<close>:
  \<open>OSError\<close> stands for every failure of the operating system (not found, is a directory,
  permission, disk full), \<open>ValueError\<close> for an operation on a closed file object.
\<close>

datatype exn = OSError | ValueError

datatype syscall =
    Stat path
  | OpenRead path
  | ReadAll path
  | OpenWrite path
  | Write path bytes
  | Flush path
  | Fsync path
  | Close path

datatype logrec =
    LogInfo string
  | LogWarning string
  | LogError string exn

datatype event =
    Progress string
  | FileProgress nat nat
  | Finished nat nat

text \<open>
  \<open>ents\<close> is the file system, \<open>trace\<close> the operations requested of it so far, in order.
  \<open>faults n\<close> says that the operation number \<open>n\<close> (counted from 0 over the whole run)
  fails in the operating system. \<open>rng\<close> is the stream the random module draws from,
  \<open>log\<close> what the logger has recorded and \<open>events\<close> what the Qt signals have emitted.
\<close>

record world =
  ents :: "path \<rightharpoonup> entry"
  trace :: "syscall list"
  faults :: "nat \<Rightarrow> bool"
  rng :: "nat \<Rightarrow> nat"
  log :: "logrec list"
  events :: "event list"

type_synonym 'a io = "world \<Rightarrow> (exn + 'a) \<times> world"

definition return :: "'a \<Rightarrow> 'a io" where
  "return x w = (Inr x, w)"

definition raise :: "exn \<Rightarrow> 'a io" where
  "raise e w = (Inl e, w)"

definition bind :: "'a io \<Rightarrow> ('a \<Rightarrow> 'b io) \<Rightarrow> 'b io" where
  "bind m f w = (case m w of (Inl e, w') \<Rightarrow> (Inl e, w') | (Inr x, w') \<Rightarrow> f x w')"

definition seq :: "'a io \<Rightarrow> 'b io \<Rightarrow> 'b io" where
  "seq m k = bind m (\<lambda>_. k)"

text \<open>\<^verbatim>\<open>try: m  except Exception as e: h(e)\<close>; every \<open>exn\<close> is an \<^verbatim>\<open>Exception\<close>.\<close>

definition catch :: "'a io \<Rightarrow> (exn \<Rightarrow> 'a io) \<Rightarrow> 'a io" where
  "catch m h w = (case m w of (Inl e, w') \<Rightarrow> h e w' | (Inr x, w') \<Rightarrow> (Inr x, w'))"

text \<open>
  One request to the operating system: it is recorded, and it fails when the fault
  oracle says so.
\<close>

definition sys :: "syscall \<Rightarrow> unit io" where
  "sys c w =
     (let n = length (trace w); w' = w\<lparr>trace := trace w @ [c]\<rparr>
      in if faults w n then (Inl OSError, w') else (Inr (), w'))"

subsection \<open>File objects\<close>

text \<open>
  The object \<^verbatim>\<open>open\<close> returns. \<open>closed\<close> is the flag every method of a Python file
  object checks first: on a closed object \<^verbatim>\<open>read\<close>, \<^verbatim>\<open>write\<close>, \<^verbatim>\<open>flush\<close> and
  \<^verbatim>\<open>fileno\<close> raise \<^verbatim>\<open>ValueError\<close>.
\<close>

record file_obj =
  fpath :: path
  closed :: bool

text \<open>\<^verbatim>\<open>Path.exists()\<close>: a stat; a missing path is \<open>False\<close>, another failure raises.\<close>

definition exists_path :: "path \<Rightarrow> bool io" where
  "exists_path p = seq (sys (Stat p)) (\<lambda>w. (Inr (ents w p \<noteq> None), w))"

text \<open>\<^verbatim>\<open>open(p, 'rb')\<close>: a missing path and a directory raise.\<close>

definition open_rb :: "path \<Rightarrow> file_obj io" where
  "open_rb p = seq (sys (OpenRead p))
     (\<lambda>w. case ents w p of
             Some (RegFile _) \<Rightarrow> (Inr \<lparr>fpath = p, closed = False\<rparr>, w)
           | _ \<Rightarrow> (Inl OSError, w))"

text \<open>\<^verbatim>\<open>open(p, 'wb')\<close>: creates the file or truncates it to nothing; a directory raises.\<close>

definition open_wb :: "path \<Rightarrow> file_obj io" where
  "open_wb p = seq (sys (OpenWrite p))
     (\<lambda>w. case ents w p of
             Some Directory \<Rightarrow> (Inl OSError, w)
           | _ \<Rightarrow> (Inr \<lparr>fpath = p, closed = False\<rparr>, w\<lparr>ents := (ents w)(p \<mapsto> RegFile [])\<rparr>))"

definition read :: "file_obj \<Rightarrow> bytes io" where
  "read f =
     (if closed f then raise ValueError
      else seq (sys (ReadAll (fpath f)))
        (\<lambda>w. case ents w (fpath f) of
                Some (RegFile b) \<Rightarrow> (Inr b, w)
              | _ \<Rightarrow> (Inl OSError, w)))"

text \<open>
  \<^verbatim>\<open>f.write(data)\<close> appends at the position of the object, which after \<^verbatim>\<open>'wb'\<close> is
  the end of what it has written. A write that fails transfers nothing.
\<close>

definition f_write :: "file_obj \<Rightarrow> bytes \<Rightarrow> nat io" where
  "f_write f data =
     (if closed f then raise ValueError
      else seq (sys (Write (fpath f) data))
        (\<lambda>w. case ents w (fpath f) of
                Some (RegFile b) \<Rightarrow>
                  (Inr (length data), w\<lparr>ents := (ents w)(fpath f \<mapsto> RegFile (b @ data))\<rparr>)
              | _ \<Rightarrow> (Inl OSError, w)))"

definition flush :: "file_obj \<Rightarrow> unit io" where
  "flush f = (if closed f then raise ValueError else sys (Flush (fpath f)))"

text \<open>The descriptor stands for the path it was opened on.\<close>

definition fileno :: "file_obj \<Rightarrow> path io" where
  "fileno f = (if closed f then raise ValueError else return (fpath f))"

definition fsync :: "path \<Rightarrow> unit io" where
  "fsync fd = sys (Fsync fd)"

text \<open>\<^verbatim>\<open>f.close()\<close>: nothing on a closed object; the object is closed even if it fails.\<close>

definition close :: "file_obj \<Rightarrow> unit io" where
  "close f = (if closed f then return () else sys (Close (fpath f)))"

text \<open>
  \<^verbatim>\<open>with opener(p) as f: body\<close>. Leaving the block closes the object, also when the
  body raised; the name \<^verbatim>\<open>f\<close> stays bound afterwards, to the closed object, which is
  returned next to the body's value.
\<close>

definition with_open :: "(path \<Rightarrow> file_obj io) \<Rightarrow> path \<Rightarrow> (file_obj \<Rightarrow> 'a io) \<Rightarrow> ('a \<times> file_obj) io" where
  "with_open opener p body =
     bind (opener p) (\<lambda>f w.
       case body f w of
         (Inl e, w1) \<Rightarrow> (case close f w1 of (Inl e', w2) \<Rightarrow> (Inl e', w2) | (Inr _, w2) \<Rightarrow> (Inl e, w2))
       | (Inr r, w1) \<Rightarrow> (case close f w1 of (Inl e', w2) \<Rightarrow> (Inl e', w2)
                                          | (Inr _, w2) \<Rightarrow> (Inr (r, f\<lparr>closed := True\<rparr>), w2)))"

subsection \<open>Logger, progress callback, random letters\<close>

text \<open>The logging module swallows the failures of its handlers: a call never raises.\<close>

definition logger :: "logrec \<Rightarrow> unit io" where
  "logger r w = (Inr (), w\<lparr>log := log w @ [r]\<rparr>)"

definition emit :: "event \<Rightarrow> unit io" where
  "emit e w = (Inr (), w\<lparr>events := events w @ [e]\<rparr>)"

text \<open>
  \<^verbatim>\<open>if progress_callback: progress_callback(msg)\<close>. The callback the worker passes is
  the \<^verbatim>\<open>emit\<close> of its \<^verbatim>\<open>progress\<close> signal, so a callback is the event it emits.
\<close>

definition notify :: "(string \<Rightarrow> event) option \<Rightarrow> string \<Rightarrow> unit io" where
  "notify progress_callback msg =
     (case progress_callback of None \<Rightarrow> return () | Some cb \<Rightarrow> emit (cb msg))"

definition ascii_letters :: string where
  "ascii_letters = ''abcdefghijklmnopqrstuvwxyzABCDEFGHIJKLMNOPQRSTUVWXYZ''"

text \<open>
  \<^verbatim>\<open>''.join(random.choices(string.ascii_letters, k=k)).encode()\<close>: \<open>k\<close> draws, each an
  index into the 52 letters, and the stream moves on by \<open>k\<close>.
\<close>

definition random_letters :: "nat \<Rightarrow> bytes io" where
  "random_letters k w =
     (Inr (map (\<lambda>i. ascii_letters ! (rng w i mod 52)) [0..<k]),
      w\<lparr>rng := (\<lambda>i. rng w (i + k))\<rparr>)"

subsection \<open>\<^verbatim>\<open>int(original_size * 0.9)\<close>\<close>

text \<open>
  Python converts the integer to a double, multiplies by the double nearest to 0.9 and
  truncates. A double is a significand below \<open>2 ^ 53\<close> times a power of two, and both the
  conversion and the product round to the nearest such number, ties to the even
  significand (a significand rounded up to \<open>2 ^ 53\<close> itself is the next power of two).
  The double nearest to 0.9 is \<open>8106479329266893 / 2 ^ 53\<close>. The length of a \<^verbatim>\<open>bytes\<close>
  object is below \<open>2 ^ 63\<close>, far from the overflow of a double.
\<close>

fun bit_length :: "nat \<Rightarrow> nat" where
  "bit_length n = (if n = 0 then 0 else Suc (bit_length (n div 2)))"

declare bit_length.simps [simp del]

text \<open>\<open>round_even n s\<close>: \<open>n / 2 ^ s\<close> rounded to the nearest integer, ties to even.\<close>

definition round_even :: "nat \<Rightarrow> nat \<Rightarrow> nat" where
  "round_even n s =
     (let q = n div 2 ^ s; r = n mod 2 ^ s
      in if 2 * r > 2 ^ s \<or> (2 * r = 2 ^ s \<and> odd q) then q + 1 else q)"

text \<open>\<open>to_double n = (m, e)\<close>: the double nearest to \<open>n\<close> is \<open>m * 2 ^ e\<close>.\<close>

definition to_double :: "nat \<Rightarrow> nat \<times> nat" where
  "to_double n = (let s = bit_length n - 53 in (round_even n s, s))"

definition nine_tenths :: nat where
  "nine_tenths = 8106479329266893"

text \<open>
  The product of \<open>m1 * 2 ^ e1\<close> and \<open>nine_tenths / 2 ^ 53\<close> is \<open>m1 * nine_tenths\<close> scaled
  by \<open>2 ^ e1 / 2 ^ 53\<close>; rounding it to a double gives \<open>m2 * 2 ^ e2\<close> with the same scale,
  and \<^verbatim>\<open>int\<close> drops the fraction.
\<close>

definition int_times_0_9 :: "nat \<Rightarrow> nat" where
  "int_times_0_9 n =
     (let (m1, e1) = to_double n;
          (m2, e2) = to_double (m1 * nine_tenths)
      in (m2 * 2 ^ (e1 + e2)) div 2 ^ 53)"

subsection \<open>\<^verbatim>\<open>erase_file\<close>\<close>

text \<open>\<^verbatim>\<open>(b"hello world " * (new_size // 12 + 1))[:new_size]\<close>\<close>

definition hello_data :: "nat \<Rightarrow> bytes" where
  "hello_data new_size = take new_size (concat (replicate (new_size div 12 + 1) ''hello world ''))"

text \<open>
  Step 1. The \<^verbatim>\<open>with\<close> block holds the write only: \<^verbatim>\<open>f.flush()\<close> and
  \<^verbatim>\<open>os.fsync(f.fileno())\<close> come after it, on the object the block has closed.
\<close>

definition step1 :: "path \<Rightarrow> bytes \<Rightarrow> nat \<Rightarrow> unit io" where
  "step1 file_path original_content new_size =
     bind (with_open open_wb file_path (\<lambda>f. f_write f (take new_size original_content)))
       (\<lambda>(_, f).
          seq (flush f)
         (seq (bind (fileno f) fsync)
              (logger (LogInfo (''Step 1 complete: Removed 10% from '' @ str_path file_path)))))"

text \<open>Steps 2 to 4 write, flush and fsync inside the \<^verbatim>\<open>with\<close> block.\<close>

definition overwrite :: "path \<Rightarrow> bytes \<Rightarrow> unit io" where
  "overwrite file_path data =
     seq (with_open open_wb file_path
            (\<lambda>f. seq (f_write f data) (seq (flush f) (bind (fileno f) fsync))))
         (return ())"

definition step2 :: "path \<Rightarrow> (string \<Rightarrow> event) option \<Rightarrow> nat \<Rightarrow> unit io" where
  "step2 file_path progress_callback new_size =
     seq (notify progress_callback (''Step 2/4: Replacing with random letters in '' @ name file_path))
    (bind (random_letters new_size) (\<lambda>letters.
     seq (overwrite file_path letters)
         (logger (LogInfo (''Step 2 complete: Replaced with random letters in '' @ str_path file_path)))))"

definition step3 :: "path \<Rightarrow> (string \<Rightarrow> event) option \<Rightarrow> nat \<Rightarrow> unit io" where
  "step3 file_path progress_callback new_size =
     seq (notify progress_callback (''Step 3/4: Overwriting with 'hello world' in '' @ name file_path))
    (seq (overwrite file_path (hello_data new_size))
         (logger (LogInfo (''Step 3 complete: Overwrote with 'hello world' in '' @ str_path file_path))))"

definition step4 :: "path \<Rightarrow> (string \<Rightarrow> event) option \<Rightarrow> unit io" where
  "step4 file_path progress_callback =
     seq (notify progress_callback (''Step 4/4: Clearing content of '' @ name file_path))
    (seq (overwrite file_path [])
         (logger (LogInfo (''Step 4 complete: Cleared content of '' @ str_path file_path))))"

text \<open>The body of the \<^verbatim>\<open>try\<close> block.\<close>

definition erase_body :: "path \<Rightarrow> (string \<Rightarrow> event) option \<Rightarrow> bool io" where
  "erase_body file_path progress_callback =
     bind (exists_path file_path) (\<lambda>ex.
       if \<not> ex then
         seq (logger (LogWarning (''File not found: '' @ str_path file_path))) (return False)
       else
         bind (with_open open_rb file_path read) (\<lambda>(original_content, _).
           let original_size = length original_content in
           if original_size = 0 then
             seq (logger (LogInfo (''File is empty, skipping: '' @ str_path file_path))) (return True)
           else
             seq (notify progress_callback
                    (''Step 1/4: Removing 10% of content from '' @ name file_path))
               (let new_size = int_times_0_9 original_size in
                seq (step1 file_path original_content new_size)
               (seq (step2 file_path progress_callback new_size)
               (seq (step3 file_path progress_callback new_size)
               (seq (step4 file_path progress_callback)
               (seq (logger (LogInfo (''Successfully erased: '' @ str_path file_path)))
                    (return True))))))))"

text \<open>\<^verbatim>\<open>except Exception as e: logger.error(...); return False\<close>\<close>

definition erase_file :: "path \<Rightarrow> (string \<Rightarrow> event) option \<Rightarrow> bool io" where
  "erase_file file_path progress_callback =
     catch (erase_body file_path progress_callback)
       (\<lambda>e. seq (logger (LogError (''Error erasing '' @ str_path file_path @ '': '') e))
                 (return False))"

subsection \<open>\<^verbatim>\<open>EraseWorker\<close>\<close>

record EraseWorker =
  files :: "path list"
  is_running :: bool

definition init :: "path list \<Rightarrow> EraseWorker" where
  "init fs = \<lparr>files = fs, is_running = True\<rparr>"

definition stop :: "EraseWorker \<Rightarrow> EraseWorker" where
  "stop self = self\<lparr>is_running := False\<rparr>"

text \<open>\<^verbatim>\<open>str\<close> of a non-negative integer, for the f-strings.\<close>

fun str_nat :: "nat \<Rightarrow> string" where
  "str_nat n =
     (if n < 10 then [char_of (48 + n)]
      else str_nat (n div 10) @ [char_of (48 + n mod 10)])"

declare str_nat.simps [simp del]

text \<open>
  The \<^verbatim>\<open>for\<close> loop of \<^verbatim>\<open>run\<close>, from index \<open>i\<close> on. \<^verbatim>\<open>stop\<close> is called by the
  thread of the window while the worker runs: \<open>ui i\<close> says that a call has arrived
  between the previous reading of \<^verbatim>\<open>is_running\<close> and the reading of iteration \<open>i\<close>.
  Nothing sets the flag back.
\<close>

fun run_loop :: "(nat \<Rightarrow> bool) \<Rightarrow> nat \<Rightarrow> nat \<Rightarrow> path list \<Rightarrow> EraseWorker \<Rightarrow> nat \<times> nat \<Rightarrow> (nat \<times> nat) io" where
  "run_loop ui tot i [] self (success_count, fail_count) = return (success_count, fail_count)"
| "run_loop ui tot i (file_path # rest) self (success_count, fail_count) =
     (let self = (if ui i then stop self else self) in
      if \<not> is_running self then
        seq (emit (Progress ''Erasing stopped by user'')) (return (success_count, fail_count))
      else
        seq (emit (FileProgress (i + 1) tot))
       (seq (emit (Progress (''Processing file '' @ str_nat (i + 1) @ ''/'' @ str_nat tot
                             @ '': '' @ name file_path)))
       (bind (erase_file file_path (Some Progress)) (\<lambda>ok.
          run_loop ui tot (i + 1) rest self
            (if ok then (success_count + 1, fail_count) else (success_count, fail_count + 1))))))"

definition run :: "(nat \<Rightarrow> bool) \<Rightarrow> EraseWorker \<Rightarrow> unit io" where
  "run ui self =
     (let tot = length (files self) in
      bind (run_loop ui tot 0 (files self) self (0, 0))
        (\<lambda>(success_count, fail_count). emit (Finished success_count fail_count)))"

subsection \<open>\<^verbatim>\<open>get_all_files\<close>\<close>











subsection \<open>Observations used in the statements\<close>

text \<open>
  \<^verbatim>\<open>erase_file\<close> asks for exactly one stat, first of all, so the stats in the trace are the
  calls of \<^verbatim>\<open>erase_file\<close>, in order.
\<close>

fun stat_paths :: "syscall list \<Rightarrow> path list" where
  "stat_paths [] = []"
| "stat_paths (Stat p # cs) = p # stat_paths cs"
| "stat_paths (c # cs) = stat_paths cs"

fun written :: "syscall list \<Rightarrow> bytes list" where
  "written [] = []"
| "written (Write p b # cs) = b # written cs"
| "written (c # cs) = written cs"

fun is_file_progress :: "event \<Rightarrow> bool" where
  "is_file_progress (FileProgress i n) = True"
| "is_file_progress e = False"

fun is_finished :: "event \<Rightarrow> bool" where
  "is_finished (Finished s f) = True"
| "is_finished e = False"

text \<open>An action is quiet when it asks for no stat and emits neither of the two signals.\<close>

definition quiet :: "'a io \<Rightarrow> bool" where
  "quiet m =
     (\<forall>w. stat_paths (trace (snd (m w))) = stat_paths (trace w)
        \<and> filter is_file_progress (events (snd (m w))) = filter is_file_progress (events w)
        \<and> filter is_finished (events (snd (m w))) = filter is_finished (events w))"

text \<open>A world that has not run yet, with no faults, on the given file system.\<close>

definition fresh :: "(path \<rightharpoonup> entry) \<Rightarrow> world" where
  "fresh fs = \<lparr>ents = fs, trace = [], faults = (\<lambda>n. False), rng = (\<lambda>i. i), log = [], events = []\<rparr>"





section \<open>Properties\<close>

subsection \<open>Running the operations when nothing fails\<close>

lemmas io_defs = return_def raise_def bind_def seq_def catch_def sys_def exists_path_def
  open_rb_def open_wb_def read_def f_write_def flush_def fileno_def fsync_def close_def
  with_open_def logger_def emit_def notify_def







lemma read_ok:
  assumes "\<forall>n. \<not> faults w n" and "ents w p = Some (RegFile b)"
  shows "with_open open_rb p read w =
     (Inr (b, \<lparr>fpath = p, closed = True\<rparr>), w\<lparr>trace := trace w @ [OpenRead p, ReadAll p, Close p]\<rparr>)"
  using assms by (simp add: io_defs)

lemma exists_ok:
  assumes "\<forall>n. \<not> faults w n"
  shows "exists_path p w = (Inr (ents w p \<noteq> None), w\<lparr>trace := trace w @ [Stat p]\<rparr>)"
  using assms by (simp add: io_defs)

lemma step1_closed_handle:
  assumes "\<forall>n. \<not> faults w n" and "ents w p \<noteq> Some Directory"
  shows "step1 p content m w =
     (Inl ValueError, w\<lparr>trace := trace w @ [OpenWrite p, Write p (take m content), Close p],
                        ents := (ents w)(p \<mapsto> RegFile (take m content))\<rparr>)"
  using assms by (cases "ents w p") (auto simp: step1_def io_defs split: entry.splits)

lemma notify_run:
  "notify cb m w = (Inr (), w\<lparr>events := events w @ (case cb of None \<Rightarrow> [] | Some f \<Rightarrow> [f m])\<rparr>)"
  by (cases cb) (simp_all add: notify_def return_def emit_def)

lemma erase_file_nonempty:
  assumes nf: "\<forall>n. \<not> faults w n" and f: "ents w p = Some (RegFile content)" and ne: "content \<noteq> []"
  shows "erase_file p cb w =
     (Inr False,
      w\<lparr>trace := trace w @ [Stat p, OpenRead p, ReadAll p, Close p,
                            OpenWrite p, Write p (take (int_times_0_9 (length content)) content), Close p],
        ents := (ents w)(p \<mapsto> RegFile (take (int_times_0_9 (length content)) content)),
        events := events w @ (case cb of None \<Rightarrow> [] | Some f \<Rightarrow> [f (''Step 1/4: Removing 10% of content from '' @ name p)]),
        log := log w @ [LogError (''Error erasing '' @ str_path p @ '': '') ValueError]\<rparr>)"
proof -
  have b: "erase_body p cb w =
     (Inl ValueError,
      w\<lparr>trace := trace w @ [Stat p, OpenRead p, ReadAll p, Close p,
                            OpenWrite p, Write p (take (int_times_0_9 (length content)) content), Close p],
        ents := (ents w)(p \<mapsto> RegFile (take (int_times_0_9 (length content)) content)),
        events := events w @ (case cb of None \<Rightarrow> [] | Some f \<Rightarrow> [f (''Step 1/4: Removing 10% of content from '' @ name p)])\<rparr>)"
    using nf f ne
    by (cases cb)
       (simp_all add: erase_body_def bind_def seq_def exists_ok read_ok notify_run step1_closed_handle Let_def)
  show ?thesis
    by (simp add: erase_file_def catch_def b seq_def bind_def logger_def return_def)
qed


lemma erase_file_missing:
  assumes f: "ents w p = None"
  shows "erase_file p cb w =
     (Inr False,
      w\<lparr>trace := trace w @ [Stat p],
        log := log w @ [if faults w (length (trace w))
                        then LogError (''Error erasing '' @ str_path p @ '': '') OSError
                        else LogWarning (''File not found: '' @ str_path p)]\<rparr>)"
  using f
  by (simp add: erase_file_def catch_def erase_body_def bind_def seq_def exists_path_def sys_def logger_def return_def Let_def)

lemma erase_file_returns: "\<exists>b. fst (erase_file p cb w) = Inr b"
proof (cases "erase_body p cb w")
  case (Pair r w')
  then show ?thesis
    by (cases r) (auto simp: erase_file_def catch_def seq_def bind_def logger_def return_def)
qed

lemma erase_file_catches:
  "fst (erase_body p cb w) = Inl e \<Longrightarrow> fst (erase_file p cb w) = Inr False"
  by (cases "erase_body p cb w") (simp add: erase_file_def catch_def seq_def bind_def logger_def return_def)

subsection \<open>Evaluating the size computation, reading traces\<close>

lemma bit_length_0: "bit_length 0 = 0"
  by (simp add: bit_length.simps)

lemma bit_length_Suc_0: "bit_length (Suc 0) = Suc 0"
  by (subst bit_length.simps) (simp add: bit_length_0)

lemma bit_length_1: "bit_length 1 = 1"
  using bit_length_Suc_0 by simp

lemma bit_length_double: "0 < n \<Longrightarrow> bit_length (2 * n) = Suc (bit_length n)"
  by (subst bit_length.simps) simp

lemma bit_length_double1: "bit_length (2 * n + 1) = Suc (bit_length n)"
  by (subst bit_length.simps) simp

lemma bit_length_Bit0: "bit_length (numeral (Num.Bit0 k)) = Suc (bit_length (numeral k))"
  using bit_length_double [of "numeral k"] by (simp add: numeral_Bit0 mult_2)

lemma bit_length_Bit1: "bit_length (numeral (Num.Bit1 k)) = Suc (bit_length (numeral k))"
  using bit_length_double1 [of "numeral k"] by (simp add: numeral_Bit1 mult_2)

lemmas bit_length_numeral = bit_length_0 bit_length_Suc_0 bit_length_1 bit_length_Bit0 bit_length_Bit1

lemma int_times_0_9_10: "int_times_0_9 10 = 9"
  by (simp add: int_times_0_9_def to_double_def round_even_def nine_tenths_def bit_length_numeral)

lemma int_times_0_9_20: "int_times_0_9 20 = 18"
  by (simp add: int_times_0_9_def to_double_def round_even_def nine_tenths_def bit_length_numeral)

lemma int_times_0_9_big: "int_times_0_9 2251799813685251 = 2026619832316726"
  by (simp add: int_times_0_9_def to_double_def round_even_def nine_tenths_def bit_length_numeral)


lemma stat_paths_append: "stat_paths (xs @ ys) = stat_paths xs @ stat_paths ys"
  by (induction xs rule: stat_paths.induct) simp_all


lemma bit_length_bounds:
  "0 < n \<Longrightarrow> 2 ^ (bit_length n - 1) \<le> n \<and> n < 2 ^ bit_length n"
proof (induction n rule: bit_length.induct)
  case (1 n)
  show ?case
  proof (cases "n div 2 = 0")
    case True
    with 1(2) have "n = 1" by (simp add: div_eq_0_iff)
    then show ?thesis by (simp add: bit_length_Suc_0)
  next
    case False
    then have h: "0 < n div 2" by simp
    from 1(1) [OF _ h] 1(2)
    have ih: "2 ^ (bit_length (n div 2) - 1) \<le> n div 2" "n div 2 < 2 ^ bit_length (n div 2)"
      by simp_all
    have pos: "0 < bit_length (n div 2)"
      using h by (subst bit_length.simps) simp
    have b: "bit_length n = Suc (bit_length (n div 2))"
      using 1(2) by (subst bit_length.simps) simp
    from pos have e: "2 ^ bit_length (n div 2) = 2 * 2 ^ (bit_length (n div 2) - 1)"
      by (cases "bit_length (n div 2)") simp_all
    have "2 * (n div 2) \<le> n" by simp
    moreover have "2 * 2 ^ (bit_length (n div 2) - 1) \<le> 2 * (n div 2)"
      using ih(1) by simp
    ultimately have "2 ^ bit_length (n div 2) \<le> n"
      unfolding e by (rule order_trans [rotated])
    then have "2 ^ (bit_length n - 1) \<le> n"
      unfolding b by simp
    moreover have "n < 2 * (n div 2) + 2" by presburger
    then have "n < 2 ^ bit_length n"
      using ih(2) unfolding b by simp
    ultimately show ?thesis by simp
  qed
qed

lemma bit_length_le: "n < 2 ^ k \<Longrightarrow> bit_length n \<le> k"
proof (cases "n = 0")
  case True
  then show ?thesis by (simp add: bit_length_0)
next
  case False
  assume "n < 2 ^ k"
  from False have "2 ^ (bit_length n - 1) \<le> n" using bit_length_bounds [of n] by simp
  from this \<open>n < 2 ^ k\<close> have "(2::nat) ^ (bit_length n - 1) < 2 ^ k" by (rule le_less_trans)
  then have "bit_length n - 1 < k" by simp
  then show ?thesis by simp
qed

lemma bit_length_gt: "2 ^ k \<le> n \<Longrightarrow> k < bit_length n"
proof -
  assume a: "2 ^ k \<le> n"
  then have "0 < n" by (cases "n = 0") simp_all
  then have "n < 2 ^ bit_length n" using bit_length_bounds [of n] by simp
  with a have "(2::nat) ^ k < 2 ^ bit_length n" by (rule le_less_trans)
  then show ?thesis by simp
qed

lemma round_even_0: "round_even n 0 = n"
  by (simp add: round_even_def)

lemma round_even_range:
  "round_even n s = n div 2 ^ s \<or> round_even n s = n div 2 ^ s + 1"
  by (simp add: round_even_def Let_def)

lemma to_double_small: "n < 2 ^ 53 \<Longrightarrow> to_double n = (n, 0)"
  using bit_length_le [of n 53] by (simp add: to_double_def round_even_0)


lemma int_times_0_9_exact:
  assumes "n < 2 ^ 48"
  shows "int_times_0_9 n = 9 * n div 10"
proof (cases "n = 0")
  case True
  then show ?thesis
    by (simp add: int_times_0_9_def to_double_def round_even_def bit_length_0)
next
  case False
  then have n1: "1 \<le> n" by simp
  define P where "P = n * nine_tenths"
  define s where "s = bit_length P - 53"
  define A :: nat where "A = 2 ^ s"
  define F where "F = 9 * n div 10"
  define m2 where "m2 = round_even P s"
  have n53: "n < 2 ^ 53" using assms by simp
  have c10: "10 * P = 9 * 2 ^ 53 * n + 2 * n"
    by (simp add: P_def nine_tenths_def)
  have Plow: "2 ^ 52 \<le> P"
    using n1 c10 by simp
  have Pup: "P < 2 ^ 101"
    using assms c10 by simp
  have bl: "52 < bit_length P" using Plow by (rule bit_length_gt)
  have bu: "bit_length P \<le> 101" using Pup by (rule bit_length_le)
  have s48: "s \<le> 48" using bu by (simp add: s_def)
  have bs: "bit_length P - 1 = s + 52" using bl by (simp add: s_def)
  have "0 < P" using Plow by simp
  then have "2 ^ (bit_length P - 1) \<le> P" using bit_length_bounds [of P] by simp
  then have AP: "A * 2 ^ 52 \<le> P" unfolding bs A_def by (simp add: power_add)
  have Apos: "0 < A" by (simp add: A_def)
  define B :: nat where "B = 2 ^ (53 - s)"
  have AB: "B * A = 2 ^ 53"
    using s48 by (simp add: A_def B_def flip: power_add)
  have F1: "10 * F \<le> 9 * n" by (simp add: F_def)
  have F2: "9 * n < 10 * F + 10" unfolding F_def by presburger
  define q where "q = P div A"
  have q1: "q * A \<le> P" by (simp add: q_def)
  have q2: "P < q * A + A"
    using Apos unfolding q_def by (metis div_mult_mod_eq add_less_cancel_left mod_less_divisor mult.commute)
  have m: "m2 = q \<or> m2 = q + 1"
    using round_even_range [of P s] by (simp add: m2_def q_def A_def)
  have "10 * (F * 2 ^ 53) \<le> 10 * P" using F1 c10 by simp
  then have "F * 2 ^ 53 \<le> P" by simp
  then have "(F * B) * A \<le> P" using AB by (simp add: mult.assoc)
  then have "F * B \<le> q" unfolding q_def using Apos by (simp add: less_eq_div_iff_mult_less_eq)
  then have "(F * B) * A \<le> q * A" by (rule mult_le_mono1)
  then have lowq: "F * 2 ^ 53 \<le> q * A" using AB by (simp add: mult.assoc)
  have low: "F * 2 ^ 53 \<le> m2 * A"
    using m lowq by (auto simp: add_mult_distrib)
  have "m2 * A \<le> q * A + A" using m by (auto simp: add_mult_distrib)
  then have up0: "m2 * A \<le> P + A" using q1 by simp
  have "10 * (P + A) < 10 * ((F + 1) * 2 ^ 53)"
    using c10 AP F2 assms by simp
  then have "P + A < (F + 1) * 2 ^ 53" by simp
  with up0 have up: "m2 * A < (F + 1) * 2 ^ 53" by simp
  have "(m2 * A) div 2 ^ 53 = F"
    using low up by (intro div_nat_eqI) (simp_all add: mult.commute)
  moreover have "int_times_0_9 n = (m2 * A) div 2 ^ 53"
    unfolding int_times_0_9_def to_double_small [OF n53]
    by (simp add: to_double_def Let_def m2_def A_def s_def P_def)
  ultimately show ?thesis by (simp add: F_def)
qed

text \<open>
  Below \<open>2 ^ 48\<close> bytes (256 TiB) the double arithmetic gives the exact floor of nine
  tenths; far beyond, where doubles are more than 0.1 apart, it can round up.
\<close>

lemma int_times_0_9_beyond:
  "int_times_0_9 2251799813685251 \<noteq> 9 * 2251799813685251 div 10"
  by (simp add: int_times_0_9_big)

lemma int_times_0_9_le:
  assumes "n < 2 ^ 48"
  shows "int_times_0_9 n \<le> n"
  unfolding int_times_0_9_exact [OF assms] by simp

text \<open>
  The size of the file when \<^verbatim>\<open>erase_file\<close> returns, on a non-empty file and with no
  failing operation, is the size step 1 computes.
\<close>

lemma erase_file_size_after:
  assumes "\<forall>n. \<not> faults w n"
    and "ents w p = Some (RegFile content)"
    and "content \<noteq> []"
    and "length content < 2 ^ 48"
  shows "\<exists>b. ents (snd (erase_file p cb w)) p = Some (RegFile b)
           \<and> length b = int_times_0_9 (length content)
           \<and> length b = 9 * length content div 10"
proof -
  have "ents (snd (erase_file p cb w)) p
      = Some (RegFile (take (int_times_0_9 (length content)) content))"
    unfolding erase_file_nonempty [OF assms(1-3)] by simp
  moreover have "length (take (int_times_0_9 (length content)) content) = int_times_0_9 (length content)"
    using int_times_0_9_le [OF assms(4)] by simp
  ultimately show ?thesis
    using int_times_0_9_exact [OF assms(4)] by simp
qed

subsection \<open>The erase engine\<close>

text \<open>
  C1. The claim: for every existing file of size \<open>N > 0\<close>, when no I/O error occurs,
  \<^verbatim>\<open>erase_file\<close> performs all four passes in order, returns success and leaves the file
  with 0 bytes. The code does not: on a file of ten bytes, with no fault anywhere, it
  returns \<open>False\<close> and leaves the first nine bytes of the content in the file.
\<close>

theorem erase_file_nonempty_not_erased:
  "fst (erase_file [''secret.txt''] None (fresh [[''secret.txt''] \<mapsto> RegFile ''0123456789''])) = Inr False
   \<and> ents (snd (erase_file [''secret.txt''] None (fresh [[''secret.txt''] \<mapsto> RegFile ''0123456789''])))
        [''secret.txt''] = Some (RegFile ''012345678'')"
proof -
  have l: "length ''0123456789'' = 10" by simp
  show ?thesis
    using erase_file_nonempty
      [of "fresh [[''secret.txt''] \<mapsto> RegFile ''0123456789'']" "[''secret.txt'']" "''0123456789''" None]
    unfolding l int_times_0_9_10
    by (simp add: fresh_def)
qed



text \<open>
  C3. The claim: for every file of size \<open>N > 0\<close> the size of step 1 is \<open>M = floor(N * 0.9)\<close>,
  the file has \<open>M\<close> bytes after step 1, and steps 2 and 3 each write exactly \<open>M\<close> bytes.
  The first two parts hold for every size a file can have (\<open>int_times_0_9_exact\<close>,
  \<open>erase_file_size_after\<close>); steps 2 and 3 write nothing. On a file of twenty bytes, with
  no fault anywhere, \<open>M\<close> is 18, the only write of the whole call is the one of step 1,
  and the file keeps the first 18 bytes of its content.
\<close>

theorem erase_file_steps_2_3_write_nothing:
  "int_times_0_9 20 = 18
   \<and> written (trace (snd (erase_file [''b.txt''] (Some Progress)
        (fresh [[''b.txt''] \<mapsto> RegFile ''abcdefghijklmnopqrst''])))) = [''abcdefghijklmnopqr'']
   \<and> ents (snd (erase_file [''b.txt''] (Some Progress)
        (fresh [[''b.txt''] \<mapsto> RegFile ''abcdefghijklmnopqrst'']))) [''b.txt'']
       = Some (RegFile ''abcdefghijklmnopqr'')"
proof -
  have l: "length ''abcdefghijklmnopqrst'' = 20" by simp
  show ?thesis
    using erase_file_nonempty
      [of "fresh [[''b.txt''] \<mapsto> RegFile ''abcdefghijklmnopqrst'']" "[''b.txt'']"
          "''abcdefghijklmnopqrst''" "Some Progress"]
    unfolding l int_times_0_9_20
    by (simp add: fresh_def int_times_0_9_20)
qed

text \<open>
  C6. \<^verbatim>\<open>erase_file\<close> returns a boolean in every world, whatever operations fail: every
  exception of the body is turned into \<open>False\<close> by the handler. On a path that does not
  exist the result is \<open>False\<close>, and when the stat itself succeeds the logger records the
  warning \<^verbatim>\<open>File not found\<close>.
\<close>

theorem erase_file_never_raises:
  "(\<exists>b. fst (erase_file file_path cb w) = Inr b)
   \<and> (\<forall>e. fst (erase_body file_path cb w) = Inl e \<longrightarrow> fst (erase_file file_path cb w) = Inr False)
   \<and> (ents w file_path = None \<longrightarrow> fst (erase_file file_path cb w) = Inr False)
   \<and> (ents w file_path = None \<and> \<not> faults w (length (trace w)) \<longrightarrow>
        log (snd (erase_file file_path cb w)) = log w @ [LogWarning (''File not found: '' @ str_path file_path)])"
  using erase_file_returns [of file_path cb w] erase_file_catches [of file_path cb w]
  by (simp add: erase_file_missing)

theorem erase_file_never_raises_witness:
  "fst (erase_body [''gone''] None ((fresh Map.empty)\<lparr>faults := (\<lambda>n. True)\<rparr>)) = Inl OSError
   \<and> fst (erase_file [''gone''] None ((fresh Map.empty)\<lparr>faults := (\<lambda>n. True)\<rparr>)) = Inr False
   \<and> fst (erase_file [''gone''] None (fresh Map.empty)) = Inr False
   \<and> log (snd (erase_file [''gone''] None (fresh Map.empty))) = [LogWarning ''File not found: gone'']"
proof -
  have b: "fst (erase_body [''gone''] None ((fresh Map.empty)\<lparr>faults := (\<lambda>n. True)\<rparr>)) = Inl OSError"
    by (simp add: erase_body_def fresh_def bind_def seq_def exists_path_def sys_def)
  show ?thesis
    using b erase_file_never_raises [of "[''gone'']" None "(fresh Map.empty)\<lparr>faults := (\<lambda>n. True)\<rparr>"]
      erase_file_never_raises [of "[''gone'']" None "fresh Map.empty"]
    by (simp add: fresh_def)
qed







subsection \<open>The batch worker\<close>

lemma quiet_return: "quiet (return x)"
  by (simp add: quiet_def return_def)

lemma quiet_raise: "quiet (raise e)"
  by (simp add: quiet_def raise_def)

lemma quiet_bind: "quiet m \<Longrightarrow> (\<And>x. quiet (f x)) \<Longrightarrow> quiet (bind m f)"
  unfolding quiet_def bind_def
  by (auto split: prod.splits sum.splits) (metis snd_conv)+

lemma quiet_seq: "quiet m \<Longrightarrow> quiet k \<Longrightarrow> quiet (seq m k)"
  by (simp add: seq_def quiet_bind)

lemma quiet_catch: "quiet m \<Longrightarrow> (\<And>e. quiet (h e)) \<Longrightarrow> quiet (catch m h)"
  unfolding quiet_def catch_def
  by (auto split: prod.splits sum.splits) (metis snd_conv)+

lemma quiet_sys: "stat_paths [c] = [] \<Longrightarrow> quiet (sys c)"
  by (simp add: quiet_def sys_def Let_def stat_paths_append)

lemma quiet_frame:
  "(\<And>w. trace (snd (m w)) = trace w \<and> events (snd (m w)) = events w) \<Longrightarrow> quiet m"
  by (simp add: quiet_def)

lemma quiet_open_rb: "quiet (open_rb p)"
  unfolding open_rb_def
  by (intro quiet_seq quiet_sys quiet_frame) (simp_all split: option.splits entry.splits)

lemma quiet_open_wb: "quiet (open_wb p)"
  unfolding open_wb_def
  by (intro quiet_seq quiet_sys quiet_frame) (simp_all split: option.splits entry.splits)

lemma quiet_read: "quiet (read f)"
proof (cases "closed f")
  case True
  then show ?thesis by (simp add: read_def quiet_raise)
next
  case False
  then show ?thesis
    unfolding read_def
    by (simp, intro quiet_seq quiet_sys quiet_frame) (simp_all split: option.splits entry.splits)
qed

lemma quiet_f_write: "quiet (f_write f data)"
proof (cases "closed f")
  case True
  then show ?thesis by (simp add: f_write_def quiet_raise)
next
  case False
  then show ?thesis
    unfolding f_write_def
    by (simp, intro quiet_seq quiet_sys quiet_frame) (simp_all split: option.splits entry.splits)
qed

lemma quiet_flush: "quiet (flush f)"
  unfolding flush_def by (auto intro!: quiet_sys quiet_raise)

lemma quiet_fileno: "quiet (fileno f)"
  unfolding fileno_def by (auto intro!: quiet_return quiet_raise)

lemma quiet_fsync: "quiet (fsync fd)"
  unfolding fsync_def by (auto intro!: quiet_sys)

lemma quiet_close: "quiet (close f)"
  unfolding close_def by (auto intro!: quiet_sys quiet_return)

lemma quiet_with_open:
  assumes "quiet (opener p)" and "\<And>f. quiet (body f)"
  shows "quiet (with_open opener p body)"
  unfolding with_open_def
proof (rule quiet_bind [OF assms(1)])
  fix f
  have b: "\<And>w. stat_paths (trace (snd (body f w))) = stat_paths (trace w)
        \<and> filter is_file_progress (events (snd (body f w))) = filter is_file_progress (events w)
        \<and> filter is_finished (events (snd (body f w))) = filter is_finished (events w)"
    using assms(2) [of f] by (simp add: quiet_def)
  have c: "\<And>w. stat_paths (trace (snd (close f w))) = stat_paths (trace w)
        \<and> filter is_file_progress (events (snd (close f w))) = filter is_file_progress (events w)
        \<and> filter is_finished (events (snd (close f w))) = filter is_finished (events w)"
    using quiet_close [of f] by (simp add: quiet_def)
  show "quiet (\<lambda>w. case body f w of
         (Inl e, w1) \<Rightarrow> (case close f w1 of (Inl e', w2) \<Rightarrow> (Inl e', w2) | (Inr _, w2) \<Rightarrow> (Inl e, w2))
       | (Inr r, w1) \<Rightarrow> (case close f w1 of (Inl e', w2) \<Rightarrow> (Inl e', w2)
                                          | (Inr _, w2) \<Rightarrow> (Inr (r, f\<lparr>closed := True\<rparr>), w2)))"
    unfolding quiet_def
  proof (intro allI)
    fix w
    obtain r w1 where bw: "body f w = (r, w1)" by (cases "body f w")
    obtain r2 w2 where cw: "close f w1 = (r2, w2)" by (cases "close f w1")
    from b [of w] bw have b': "stat_paths (trace w1) = stat_paths (trace w)"
      "filter is_file_progress (events w1) = filter is_file_progress (events w)"
      "filter is_finished (events w1) = filter is_finished (events w)" by simp_all
    from c [of w1] cw have c': "stat_paths (trace w2) = stat_paths (trace w1)"
      "filter is_file_progress (events w2) = filter is_file_progress (events w1)"
      "filter is_finished (events w2) = filter is_finished (events w1)" by simp_all
    show "stat_paths (trace (snd (case body f w of
         (Inl e, w1) \<Rightarrow> (case close f w1 of (Inl e', w2) \<Rightarrow> (Inl e', w2) | (Inr _, w2) \<Rightarrow> (Inl e, w2))
       | (Inr r, w1) \<Rightarrow> (case close f w1 of (Inl e', w2) \<Rightarrow> (Inl e', w2)
                                          | (Inr _, w2) \<Rightarrow> (Inr (r, f\<lparr>closed := True\<rparr>), w2))))) = stat_paths (trace w)
      \<and> filter is_file_progress (events (snd (case body f w of
         (Inl e, w1) \<Rightarrow> (case close f w1 of (Inl e', w2) \<Rightarrow> (Inl e', w2) | (Inr _, w2) \<Rightarrow> (Inl e, w2))
       | (Inr r, w1) \<Rightarrow> (case close f w1 of (Inl e', w2) \<Rightarrow> (Inl e', w2)
                                          | (Inr _, w2) \<Rightarrow> (Inr (r, f\<lparr>closed := True\<rparr>), w2))))) = filter is_file_progress (events w)
      \<and> filter is_finished (events (snd (case body f w of
         (Inl e, w1) \<Rightarrow> (case close f w1 of (Inl e', w2) \<Rightarrow> (Inl e', w2) | (Inr _, w2) \<Rightarrow> (Inl e, w2))
       | (Inr r, w1) \<Rightarrow> (case close f w1 of (Inl e', w2) \<Rightarrow> (Inl e', w2)
                                          | (Inr _, w2) \<Rightarrow> (Inr (r, f\<lparr>closed := True\<rparr>), w2))))) = filter is_finished (events w)"
      using b' c' by (cases r; cases r2) (simp_all add: bw cw)
  qed
qed

lemma quiet_logger: "quiet (logger r)"
  by (simp add: quiet_def logger_def)

lemma quiet_emit_progress: "quiet (emit (Progress m))"
  by (simp add: quiet_def emit_def)

lemma quiet_notify: "quiet (notify None m)" "quiet (notify (Some Progress) m)"
  by (simp_all add: notify_def quiet_return quiet_emit_progress)

lemma quiet_random_letters: "quiet (random_letters k)"
  by (simp add: quiet_def random_letters_def)

lemmas quiet_intros = quiet_return quiet_raise quiet_bind quiet_seq quiet_catch quiet_open_rb
  quiet_open_wb quiet_read quiet_f_write quiet_flush quiet_fileno quiet_fsync quiet_close
  quiet_with_open quiet_logger quiet_emit_progress quiet_notify quiet_random_letters

lemma quiet_overwrite: "quiet (overwrite p data)"
  unfolding overwrite_def by (intro quiet_intros)

lemma quiet_step1: "quiet (step1 p content m)"
  unfolding step1_def by (intro quiet_intros) (auto intro!: quiet_intros)


lemma quiet_step2: "quiet (step2 p (Some Progress) m)"
  unfolding step2_def by (intro quiet_intros quiet_overwrite)

lemma quiet_step3: "quiet (step3 p (Some Progress) m)"
  unfolding step3_def by (intro quiet_intros quiet_overwrite)

lemma quiet_step4: "quiet (step4 p (Some Progress))"
  unfolding step4_def by (intro quiet_intros quiet_overwrite)

lemma quiet_after_exists:
  "quiet (if \<not> ex then
         seq (logger (LogWarning (''File not found: '' @ str_path file_path))) (return False)
       else
         bind (with_open open_rb file_path read) (\<lambda>(original_content, _).
           let original_size = length original_content in
           if original_size = 0 then
             seq (logger (LogInfo (''File is empty, skipping: '' @ str_path file_path))) (return True)
           else
             seq (notify (Some Progress)
                    (''Step 1/4: Removing 10% of content from '' @ name file_path))
               (let new_size = int_times_0_9 original_size in
                seq (step1 file_path original_content new_size)
               (seq (step2 file_path (Some Progress) new_size)
               (seq (step3 file_path (Some Progress) new_size)
               (seq (step4 file_path (Some Progress))
               (seq (logger (LogInfo (''Successfully erased: '' @ str_path file_path)))
                    (return True))))))))"
proof (cases ex)
  case False
  then show ?thesis by (simp del: append.simps) (intro quiet_intros)
next
  case True
  have "quiet (case x of (original_content, _) \<Rightarrow>
           let original_size = length original_content in
           if original_size = 0 then
             seq (logger (LogInfo (''File is empty, skipping: '' @ str_path file_path))) (return True)
           else
             seq (notify (Some Progress)
                    (''Step 1/4: Removing 10% of content from '' @ name file_path))
               (let new_size = int_times_0_9 original_size in
                seq (step1 file_path original_content new_size)
               (seq (step2 file_path (Some Progress) new_size)
               (seq (step3 file_path (Some Progress) new_size)
               (seq (step4 file_path (Some Progress))
               (seq (logger (LogInfo (''Successfully erased: '' @ str_path file_path)))
                    (return True)))))))" for x :: "bytes \<times> file_obj"
  proof (cases x)
    case (Pair content f)
    show ?thesis
    proof (cases "content = []")
      case True
      with Pair show ?thesis by (simp del: append.simps) (intro quiet_intros)
    next
      case False
      with Pair show ?thesis
        by (simp del: append.simps add: Let_def)
           (intro quiet_intros quiet_step1 quiet_step2 quiet_step3 quiet_step4)
    qed
  qed
  with True show ?thesis by (simp del: append.simps) (intro quiet_intros, simp)
qed

lemma exists_path_effect:
  "stat_paths (trace (snd (exists_path p w))) = stat_paths (trace w) @ [p]
   \<and> events (snd (exists_path p w)) = events w"
  by (simp add: exists_path_def seq_def bind_def sys_def Let_def stat_paths_append)

lemma erase_file_effect:
  "stat_paths (trace (snd (erase_file p (Some Progress) w))) = stat_paths (trace w) @ [p]
   \<and> filter is_file_progress (events (snd (erase_file p (Some Progress) w))) = filter is_file_progress (events w)
   \<and> filter is_finished (events (snd (erase_file p (Some Progress) w))) = filter is_finished (events w)"
proof -
  let ?h = "\<lambda>e. seq (logger (LogError (''Error erasing '' @ str_path p @ '': '') e)) (return False)"
  obtain r w1 where e: "exists_path p w = (r, w1)" by (cases "exists_path p w")
  from exists_path_effect [of p w] e
  have w1: "stat_paths (trace w1) = stat_paths (trace w) @ [p]" "events w1 = events w" by simp_all
  have qh: "quiet (?h x)" for x by (intro quiet_intros)
  show ?thesis
  proof (cases r)
    case (Inl x)
    then have "erase_file p (Some Progress) w = ?h x w1"
      by (simp add: erase_file_def erase_body_def catch_def bind_def e)
    then show ?thesis using qh [of x] w1 by (simp add: quiet_def)
  next
    case (Inr ex)
    let ?k = "if \<not> ex then
         seq (logger (LogWarning (''File not found: '' @ str_path p))) (return False)
       else
         bind (with_open open_rb p read) (\<lambda>(original_content, _).
           let original_size = length original_content in
           if original_size = 0 then
             seq (logger (LogInfo (''File is empty, skipping: '' @ str_path p))) (return True)
           else
             seq (notify (Some Progress)
                    (''Step 1/4: Removing 10% of content from '' @ name p))
               (let new_size = int_times_0_9 original_size in
                seq (step1 p original_content new_size)
               (seq (step2 p (Some Progress) new_size)
               (seq (step3 p (Some Progress) new_size)
               (seq (step4 p (Some Progress))
               (seq (logger (LogInfo (''Successfully erased: '' @ str_path p)))
                    (return True)))))))"
    from Inr have "erase_file p (Some Progress) w = catch ?k ?h w1"
      unfolding erase_file_def erase_body_def by (simp add: catch_def bind_def [of "exists_path p"] e del: append.simps)
    moreover have "quiet (catch ?k ?h)"
      by (rule quiet_catch [OF quiet_after_exists qh])
    ultimately show ?thesis using w1 by (simp add: quiet_def del: append.simps)
  qed
qed


lemma run_loop_stopped:
  assumes "ui i \<or> \<not> is_running self"
  shows "run_loop ui tot i (file_path # rest) self (sc, fc) w =
     (Inr (sc, fc), w\<lparr>events := events w @ [Progress ''Erasing stopped by user'']\<rparr>)"
  using assms by (auto simp: stop_def seq_def bind_def emit_def return_def Let_def)

lemma run_loop_step:
  assumes "\<not> ui i" and "is_running self"
    and "erase_file file_path (Some Progress)
           (w\<lparr>events := events w @ [FileProgress (i + 1) tot,
                 Progress (''Processing file '' @ str_nat (i + 1) @ ''/'' @ str_nat tot @ '': '' @ name file_path)]\<rparr>)
         = (Inr ok, w3)"
  shows "run_loop ui tot i (file_path # rest) self (sc, fc) w =
     run_loop ui tot (i + 1) rest self (if ok then (sc + 1, fc) else (sc, fc + 1)) w3"
  using assms by (simp add: seq_def bind_def emit_def Let_def)

lemma run_loop_effect:
  "\<exists>j sc' fc'.
      fst (run_loop ui tot i fs self (sc, fc) w) = Inr (sc', fc')
    \<and> j \<le> length fs
    \<and> sc' + fc' = sc + fc + j
    \<and> stat_paths (trace (snd (run_loop ui tot i fs self (sc, fc) w))) = stat_paths (trace w) @ take j fs
    \<and> filter is_file_progress (events (snd (run_loop ui tot i fs self (sc, fc) w)))
        = filter is_file_progress (events w) @ map (\<lambda>k. FileProgress (Suc k) tot) [i..<i + j]
    \<and> filter is_finished (events (snd (run_loop ui tot i fs self (sc, fc) w))) = filter is_finished (events w)
    \<and> (is_running self \<longrightarrow> (\<forall>k<j. \<not> ui (i + k)) \<and> (j = length fs \<or> ui (i + j)))
    \<and> (\<not> is_running self \<longrightarrow> j = 0)"
proof (induction fs arbitrary: i sc fc w)
  case Nil
  show ?case by (simp add: return_def)
next
  case (Cons file_path rest)
  show ?case
  proof (cases "ui i \<or> \<not> is_running self")
    case True
    have "fst (run_loop ui tot i (file_path # rest) self (sc, fc) w) = Inr (sc, fc)
      \<and> (0::nat) \<le> length (file_path # rest)
      \<and> sc + fc = sc + fc + 0
      \<and> stat_paths (trace (snd (run_loop ui tot i (file_path # rest) self (sc, fc) w))) = stat_paths (trace w) @ take 0 (file_path # rest)
      \<and> filter is_file_progress (events (snd (run_loop ui tot i (file_path # rest) self (sc, fc) w)))
          = filter is_file_progress (events w) @ map (\<lambda>k. FileProgress (Suc k) tot) [i..<i + 0]
      \<and> filter is_finished (events (snd (run_loop ui tot i (file_path # rest) self (sc, fc) w))) = filter is_finished (events w)
      \<and> (is_running self \<longrightarrow> (\<forall>k<0. \<not> ui (i + k)) \<and> (0 = length (file_path # rest) \<or> ui (i + 0)))
      \<and> (\<not> is_running self \<longrightarrow> (0::nat) = 0)"
      using True unfolding run_loop_stopped [of ui i self, OF True] by auto
    then show ?thesis by blast
  next
    case False
    then have nu: "\<not> ui i" and ir: "is_running self" by simp_all
    let ?w2 = "w\<lparr>events := events w @ [FileProgress (i + 1) tot,
                 Progress (''Processing file '' @ str_nat (i + 1) @ ''/'' @ str_nat tot @ '': '' @ name file_path)]\<rparr>"
    obtain r3 w3 where e: "erase_file file_path (Some Progress) ?w2 = (r3, w3)"
      by (cases "erase_file file_path (Some Progress) ?w2")
    obtain ok where r3: "r3 = Inr ok"
      using erase_file_returns [of file_path "Some Progress" ?w2] e by auto
    from erase_file_effect [of file_path ?w2] e
    have t3: "stat_paths (trace w3) = stat_paths (trace w) @ [file_path]"
      and p3: "filter is_file_progress (events w3) = filter is_file_progress (events w) @ [FileProgress (Suc i) tot]"
      and f3: "filter is_finished (events w3) = filter is_finished (events w)"
      by simp_all
    let ?c = "if ok then (sc + 1, fc) else (sc, fc + 1)"
    have step: "run_loop ui tot i (file_path # rest) self (sc, fc) w = run_loop ui tot (i + 1) rest self ?c w3"
      using e r3 by (intro run_loop_step [of ui i self, OF nu ir]) simp
    obtain sc1 fc1 where c: "?c = (sc1, fc1)" and c1: "sc1 + fc1 = sc + fc + 1"
      by (cases ok) simp_all
    from Cons.IH [of "i + 1" sc1 fc1 w3]
    obtain j sc' fc' where
        1: "fst (run_loop ui tot (i + 1) rest self (sc1, fc1) w3) = Inr (sc', fc')"
      and 2: "j \<le> length rest"
      and 3: "sc' + fc' = sc1 + fc1 + j"
      and 4: "stat_paths (trace (snd (run_loop ui tot (i + 1) rest self (sc1, fc1) w3))) = stat_paths (trace w3) @ take j rest"
      and 5: "filter is_file_progress (events (snd (run_loop ui tot (i + 1) rest self (sc1, fc1) w3)))
          = filter is_file_progress (events w3) @ map (\<lambda>k. FileProgress (Suc k) tot) [i + 1..<i + 1 + j]"
      and 6: "filter is_finished (events (snd (run_loop ui tot (i + 1) rest self (sc1, fc1) w3))) = filter is_finished (events w3)"
      and 7: "(\<forall>k<j. \<not> ui (i + 1 + k)) \<and> (j = length rest \<or> ui (i + 1 + j))"
      using ir by blast
    have u: "[i..<i + Suc j] = i # [i + 1..<i + 1 + j]"
      by (simp add: upt_conv_Cons)
    have nu_all: "\<forall>k<Suc j. \<not> ui (i + k)"
    proof (intro allI impI)
      fix k assume "k < Suc j"
      then show "\<not> ui (i + k)" using nu 7 by (cases k) simp_all
    qed
    have "fst (run_loop ui tot i (file_path # rest) self (sc, fc) w) = Inr (sc', fc')
      \<and> Suc j \<le> length (file_path # rest)
      \<and> sc' + fc' = sc + fc + Suc j
      \<and> stat_paths (trace (snd (run_loop ui tot i (file_path # rest) self (sc, fc) w))) = stat_paths (trace w) @ take (Suc j) (file_path # rest)
      \<and> filter is_file_progress (events (snd (run_loop ui tot i (file_path # rest) self (sc, fc) w)))
          = filter is_file_progress (events w) @ map (\<lambda>k. FileProgress (Suc k) tot) [i..<i + Suc j]
      \<and> filter is_finished (events (snd (run_loop ui tot i (file_path # rest) self (sc, fc) w))) = filter is_finished (events w)
      \<and> (is_running self \<longrightarrow> (\<forall>k<Suc j. \<not> ui (i + k)) \<and> (Suc j = length (file_path # rest) \<or> ui (i + Suc j)))
      \<and> (\<not> is_running self \<longrightarrow> Suc j = 0)"
      unfolding step c u
      using 1 2 3 4 5 6 7 nu_all c1 t3 p3 f3 ir by simp
    then show ?thesis by blast
  qed
qed


lemma run_effect:
  "\<exists>j sc fc.
      fst (run ui self w) = Inr ()
    \<and> j \<le> length (files self)
    \<and> sc + fc = j
    \<and> stat_paths (trace (snd (run ui self w))) = stat_paths (trace w) @ take j (files self)
    \<and> filter is_file_progress (events (snd (run ui self w)))
        = filter is_file_progress (events w) @ map (\<lambda>k. FileProgress (Suc k) (length (files self))) [0..<j]
    \<and> filter is_finished (events (snd (run ui self w))) = filter is_finished (events w) @ [Finished sc fc]
    \<and> last (events (snd (run ui self w))) = Finished sc fc
    \<and> (is_running self \<longrightarrow> (\<forall>k<j. \<not> ui k) \<and> (j = length (files self) \<or> ui j))
    \<and> (\<not> is_running self \<longrightarrow> j = 0)"
proof -
  let ?l = "run_loop ui (length (files self)) 0 (files self) self (0, 0)"
  obtain r w1 where l: "?l w = (r, w1)" by (cases "?l w")
  from run_loop_effect [of ui "length (files self)" 0 "files self" self 0 0 w]
  obtain j sc fc where
      1: "r = Inr (sc, fc)"
    and 2: "j \<le> length (files self)"
    and 3: "sc + fc = j"
    and 4: "stat_paths (trace w1) = stat_paths (trace w) @ take j (files self)"
    and 5: "filter is_file_progress (events w1)
        = filter is_file_progress (events w) @ map (\<lambda>k. FileProgress (Suc k) (length (files self))) [0..<j]"
    and 6: "filter is_finished (events w1) = filter is_finished (events w)"
    and 7: "is_running self \<longrightarrow> (\<forall>k<j. \<not> ui k) \<and> (j = length (files self) \<or> ui j)"
    and 8: "\<not> is_running self \<longrightarrow> j = 0"
    unfolding l by auto
  have r: "run ui self w = (Inr (), w1\<lparr>events := events w1 @ [Finished sc fc]\<rparr>)"
    by (simp add: run_def Let_def bind_def l 1 emit_def)
  have "fst (run ui self w) = Inr ()
    \<and> j \<le> length (files self)
    \<and> sc + fc = j
    \<and> stat_paths (trace (snd (run ui self w))) = stat_paths (trace w) @ take j (files self)
    \<and> filter is_file_progress (events (snd (run ui self w)))
        = filter is_file_progress (events w) @ map (\<lambda>k. FileProgress (Suc k) (length (files self))) [0..<j]
    \<and> filter is_finished (events (snd (run ui self w))) = filter is_finished (events w) @ [Finished sc fc]
    \<and> last (events (snd (run ui self w))) = Finished sc fc
    \<and> (is_running self \<longrightarrow> (\<forall>k<j. \<not> ui k) \<and> (j = length (files self) \<or> ui j))
    \<and> (\<not> is_running self \<longrightarrow> j = 0)"
    unfolding r using 2 3 4 5 6 7 8 by simp
  then show ?thesis by blast
qed

lemma bind_app_cong: "m w = m' w' \<Longrightarrow> bind m f w = bind m' f w'"
  by (simp add: bind_def)

lemma run_loop_cancel_prefix:
  assumes "is_running self" and "j < length fs" and "ui (i + j)" and "\<forall>k<j. \<not> ui (i + k)"
  shows "run_loop ui tot i fs self (sc, fc) w =
     bind (run_loop (\<lambda>i. False) tot i (take j fs) self (sc, fc))
       (\<lambda>c. seq (emit (Progress ''Erasing stopped by user'')) (return c)) w"
  using assms
proof (induction j arbitrary: fs i sc fc w)
  case 0
  then obtain file_path rest where fs: "fs = file_path # rest" by (cases fs) auto
  from 0 have "ui i \<or> \<not> is_running self" by simp
  then show ?case
    unfolding fs run_loop_stopped [of ui i self, OF \<open>ui i \<or> \<not> is_running self\<close>]
    by (simp add: bind_def return_def seq_def emit_def)
next
  case (Suc j)
  then obtain file_path rest where fs: "fs = file_path # rest" by (cases fs) auto
  from Suc.prems have nu: "\<not> ui i" by auto
  have nf: "\<not> (\<lambda>i. False) i" by simp
  let ?w2 = "w\<lparr>events := events w @ [FileProgress (i + 1) tot,
                 Progress (''Processing file '' @ str_nat (i + 1) @ ''/'' @ str_nat tot @ '': '' @ name file_path)]\<rparr>"
  obtain r3 w3 where e: "erase_file file_path (Some Progress) ?w2 = (r3, w3)"
    by (cases "erase_file file_path (Some Progress) ?w2")
  obtain ok where r3: "r3 = Inr ok"
    using erase_file_returns [of file_path "Some Progress" ?w2] e by auto
  let ?c = "if ok then (sc + 1, fc) else (sc, fc + 1)"
  obtain sc1 fc1 where c: "?c = (sc1, fc1)" by (cases ok) simp_all
  have e': "erase_file file_path (Some Progress) ?w2 = (Inr ok, w3)" using e r3 by simp
  have l: "run_loop ui tot i (file_path # rest) self (sc, fc) w = run_loop ui tot (i + 1) rest self ?c w3"
    by (rule run_loop_step [of ui i self, OF nu \<open>is_running self\<close> e'])
  have r: "run_loop (\<lambda>i. False) tot i (file_path # take j rest) self (sc, fc) w
      = run_loop (\<lambda>i. False) tot (i + 1) (take j rest) self ?c w3"
    by (rule run_loop_step [of "\<lambda>i. False" i self, OF nf \<open>is_running self\<close> e'])
  have ih: "run_loop ui tot (i + 1) rest self (sc1, fc1) w3 =
     bind (run_loop (\<lambda>i. False) tot (i + 1) (take j rest) self (sc1, fc1))
       (\<lambda>c. seq (emit (Progress ''Erasing stopped by user'')) (return c)) w3"
    using Suc.prems by (intro Suc.IH) (auto simp: fs)
  have "run_loop (\<lambda>i. False) tot i (file_path # take j rest) self (sc, fc) w
      = run_loop (\<lambda>i. False) tot (i + 1) (take j rest) self (sc1, fc1) w3"
    using r c by (simp only:)
  then have "bind (run_loop (\<lambda>i. False) tot i (file_path # take j rest) self (sc, fc))
       (\<lambda>c. seq (emit (Progress ''Erasing stopped by user'')) (return c)) w
     = bind (run_loop (\<lambda>i. False) tot (i + 1) (take j rest) self (sc1, fc1))
       (\<lambda>c. seq (emit (Progress ''Erasing stopped by user'')) (return c)) w3"
    by (rule bind_app_cong)
  then show ?case
    unfolding fs take_Suc_Cons l c ih by (simp only:)
qed

lemma run_cancel_prefix:
  assumes "is_running self" and "j < length (files self)" and "ui j" and "\<forall>i<j. \<not> ui i"
  shows "run ui self w =
     bind (run_loop (\<lambda>i. False) (length (files self)) 0 (take j (files self)) self (0, 0))
       (\<lambda>(sc, fc). seq (emit (Progress ''Erasing stopped by user'')) (emit (Finished sc fc))) w"
proof -
  have "run_loop ui (length (files self)) 0 (files self) self (0, 0) w =
     bind (run_loop (\<lambda>i. False) (length (files self)) 0 (take j (files self)) self (0, 0))
       (\<lambda>c. seq (emit (Progress ''Erasing stopped by user'')) (return c)) w"
    using assms by (intro run_loop_cancel_prefix) simp_all
  then show ?thesis
    by (simp add: run_def Let_def bind_def seq_def emit_def return_def split: prod.splits sum.splits)
qed

text \<open>
  C4. For every list of \<open>k\<close> files, every schedule of \<^verbatim>\<open>stop\<close> calls, every world and fault
  pattern, \<^verbatim>\<open>run\<close> returns normally having called \<^verbatim>\<open>erase_file\<close> on the first \<open>j\<close> files, once
  each and in order, for some \<open>j \<le> k\<close>; the other \<open>k - j\<close> files are not reached. It emits
  one \<^verbatim>\<open>file_progress\<close> per processed file, the counts add up to \<open>j\<close>, and the
  \<^verbatim>\<open>finished_signal\<close> is emitted exactly once, last, with those counts.
\<close>

theorem run_accounting:
  "\<exists>j sc fc.
      fst (run ui self w) = Inr ()
    \<and> j \<le> length (files self)
    \<and> j + length (drop j (files self)) = length (files self)
    \<and> sc + fc = j
    \<and> stat_paths (trace (snd (run ui self w))) = stat_paths (trace w) @ take j (files self)
    \<and> filter is_file_progress (events (snd (run ui self w)))
        = filter is_file_progress (events w) @ map (\<lambda>k. FileProgress (Suc k) (length (files self))) [0..<j]
    \<and> filter is_finished (events (snd (run ui self w))) = filter is_finished (events w) @ [Finished sc fc]
    \<and> last (events (snd (run ui self w))) = Finished sc fc"
proof -
  from run_effect [of ui self w]
  obtain j sc fc where
      "fst (run ui self w) = Inr ()"
    and "j \<le> length (files self)"
    and "sc + fc = j"
    and "stat_paths (trace (snd (run ui self w))) = stat_paths (trace w) @ take j (files self)"
    and "filter is_file_progress (events (snd (run ui self w)))
        = filter is_file_progress (events w) @ map (\<lambda>k. FileProgress (Suc k) (length (files self))) [0..<j]"
    and "filter is_finished (events (snd (run ui self w))) = filter is_finished (events w) @ [Finished sc fc]"
    and "last (events (snd (run ui self w))) = Finished sc fc"
    by blast
  moreover from \<open>j \<le> length (files self)\<close>
  have "j + length (drop j (files self)) = length (files self)" by simp
  ultimately show ?thesis by blast
qed

text \<open>
  C5. If the first \<^verbatim>\<open>stop\<close> arrives after \<open>j\<close> files have completed, with \<open>j\<close> below the number
  \<open>k\<close> of files, then \<^verbatim>\<open>run\<close> does what the loop does on the first \<open>j\<close> files alone, then
  emits the stop message and the \<^verbatim>\<open>finished_signal\<close>: \<^verbatim>\<open>erase_file\<close> is called on exactly
  those \<open>j\<close> files, \<^verbatim>\<open>file_progress\<close> is emitted for exactly those, the other \<open>k - j\<close> are
  never started, and the counts reported add up to \<open>j\<close>.
\<close>

theorem run_cancelled_after_j:
  assumes "is_running self"
    and "j < length (files self)"
    and "ui j"
    and "\<forall>i<j. \<not> ui i"
  shows "run ui self w =
       bind (run_loop (\<lambda>i. False) (length (files self)) 0 (take j (files self)) self (0, 0))
         (\<lambda>(sc, fc). seq (emit (Progress ''Erasing stopped by user'')) (emit (Finished sc fc))) w
    \<and> (\<exists>sc fc.
      fst (run ui self w) = Inr ()
    \<and> sc + fc = j
    \<and> length (drop j (files self)) = length (files self) - j
    \<and> stat_paths (trace (snd (run ui self w))) = stat_paths (trace w) @ take j (files self)
    \<and> filter is_file_progress (events (snd (run ui self w)))
        = filter is_file_progress (events w) @ map (\<lambda>k. FileProgress (Suc k) (length (files self))) [0..<j]
    \<and> filter is_finished (events (snd (run ui self w))) = filter is_finished (events w) @ [Finished sc fc]
    \<and> last (events (snd (run ui self w))) = Finished sc fc)"
proof -
  have p: "run ui self w =
       bind (run_loop (\<lambda>i. False) (length (files self)) 0 (take j (files self)) self (0, 0))
         (\<lambda>(sc, fc). seq (emit (Progress ''Erasing stopped by user'')) (emit (Finished sc fc))) w"
    using assms by (rule run_cancel_prefix)
  from run_effect [of ui self w]
  obtain j' sc fc where
      1: "fst (run ui self w) = Inr ()"
    and 2: "j' \<le> length (files self)"
    and 3: "sc + fc = j'"
    and 4: "stat_paths (trace (snd (run ui self w))) = stat_paths (trace w) @ take j' (files self)"
    and 5: "filter is_file_progress (events (snd (run ui self w)))
        = filter is_file_progress (events w) @ map (\<lambda>k. FileProgress (Suc k) (length (files self))) [0..<j']"
    and 6: "filter is_finished (events (snd (run ui self w))) = filter is_finished (events w) @ [Finished sc fc]"
    and 7: "last (events (snd (run ui self w))) = Finished sc fc"
    and 8: "is_running self \<longrightarrow> (\<forall>k<j'. \<not> ui k) \<and> (j' = length (files self) \<or> ui j')"
    by blast
  from 8 assms(1) have a: "\<forall>k<j'. \<not> ui k" and b: "j' = length (files self) \<or> ui j'" by simp_all
  from a assms(3) have "\<not> j < j'" by blast
  then have le: "j' \<le> j" by simp
  with assms(2) b have "ui j'" by auto
  with assms(4) have "\<not> j' < j" by blast
  with le have "j' = j" by simp
  with 1 3 4 5 6 7 have "\<exists>sc fc.
      fst (run ui self w) = Inr ()
    \<and> sc + fc = j
    \<and> length (drop j (files self)) = length (files self) - j
    \<and> stat_paths (trace (snd (run ui self w))) = stat_paths (trace w) @ take j (files self)
    \<and> filter is_file_progress (events (snd (run ui self w)))
        = filter is_file_progress (events w) @ map (\<lambda>k. FileProgress (Suc k) (length (files self))) [0..<j]
    \<and> filter is_finished (events (snd (run ui self w))) = filter is_finished (events w) @ [Finished sc fc]
    \<and> last (events (snd (run ui self w))) = Finished sc fc"
    by auto
  with p show ?thesis by (rule conjI)
qed

theorem run_cancelled_after_j_witness:
  "\<exists>sc fc.
      fst (run (\<lambda>i. i = 1) (init [[''a''], [''b''], [''c'']]) (fresh Map.empty)) = Inr ()
    \<and> sc + fc = (1::nat)
    \<and> stat_paths (trace (snd (run (\<lambda>i. i = 1) (init [[''a''], [''b''], [''c'']]) (fresh Map.empty)))) = [[''a'']]
    \<and> filter is_file_progress (events (snd (run (\<lambda>i. i = 1) (init [[''a''], [''b''], [''c'']]) (fresh Map.empty))))
        = [FileProgress 1 3]
    \<and> filter is_finished (events (snd (run (\<lambda>i. i = 1) (init [[''a''], [''b''], [''c'']]) (fresh Map.empty))))
        = [Finished sc fc]"
proof -
  have h: "is_running (init [[''a''], [''b''], [''c'']])"
    "1 < length (files (init [[''a''], [''b''], [''c'']]))"
    "(\<lambda>i. i = (1::nat)) 1"
    "\<forall>i<1. \<not> (\<lambda>i. i = (1::nat)) i"
    by (simp_all add: init_def)
  from run_cancelled_after_j [OF h, of "fresh Map.empty"]
  have "\<exists>sc fc.
      fst (run (\<lambda>i. i = 1) (init [[''a''], [''b''], [''c'']]) (fresh Map.empty)) = Inr ()
    \<and> sc + fc = (1::nat)
    \<and> length (drop 1 (files (init [[''a''], [''b''], [''c'']]))) = length (files (init [[''a''], [''b''], [''c'']])) - 1
    \<and> stat_paths (trace (snd (run (\<lambda>i. i = 1) (init [[''a''], [''b''], [''c'']]) (fresh Map.empty))))
         = stat_paths (trace (fresh Map.empty)) @ take 1 (files (init [[''a''], [''b''], [''c'']]))
    \<and> filter is_file_progress (events (snd (run (\<lambda>i. i = 1) (init [[''a''], [''b''], [''c'']]) (fresh Map.empty))))
        = filter is_file_progress (events (fresh Map.empty))
          @ map (\<lambda>k. FileProgress (Suc k) (length (files (init [[''a''], [''b''], [''c'']])))) [0..<1]
    \<and> filter is_finished (events (snd (run (\<lambda>i. i = 1) (init [[''a''], [''b''], [''c'']]) (fresh Map.empty))))
        = filter is_finished (events (fresh Map.empty)) @ [Finished sc fc]
    \<and> last (events (snd (run (\<lambda>i. i = 1) (init [[''a''], [''b''], [''c'']]) (fresh Map.empty)))) = Finished sc fc"
    by (rule conjunct2)
  then obtain sc fc where
      "fst (run (\<lambda>i. i = 1) (init [[''a''], [''b''], [''c'']]) (fresh Map.empty)) = Inr ()"
    and "sc + fc = (1::nat)"
    and "stat_paths (trace (snd (run (\<lambda>i. i = 1) (init [[''a''], [''b''], [''c'']]) (fresh Map.empty))))
         = stat_paths (trace (fresh Map.empty)) @ take 1 (files (init [[''a''], [''b''], [''c'']]))"
    and "filter is_file_progress (events (snd (run (\<lambda>i. i = 1) (init [[''a''], [''b''], [''c'']]) (fresh Map.empty))))
        = filter is_file_progress (events (fresh Map.empty))
          @ map (\<lambda>k. FileProgress (Suc k) (length (files (init [[''a''], [''b''], [''c'']])))) [0..<1]"
    and "filter is_finished (events (snd (run (\<lambda>i. i = 1) (init [[''a''], [''b''], [''c'']]) (fresh Map.empty))))
        = filter is_finished (events (fresh Map.empty)) @ [Finished sc fc]"
    by blast
  then have "fst (run (\<lambda>i. i = 1) (init [[''a''], [''b''], [''c'']]) (fresh Map.empty)) = Inr ()
    \<and> sc + fc = (1::nat)
    \<and> stat_paths (trace (snd (run (\<lambda>i. i = 1) (init [[''a''], [''b''], [''c'']]) (fresh Map.empty)))) = [[''a'']]
    \<and> filter is_file_progress (events (snd (run (\<lambda>i. i = 1) (init [[''a''], [''b''], [''c'']]) (fresh Map.empty))))
        = [FileProgress 1 3]
    \<and> filter is_finished (events (snd (run (\<lambda>i. i = 1) (init [[''a''], [''b''], [''c'']]) (fresh Map.empty))))
        = [Finished sc fc]"
    by (simp add: init_def fresh_def)
  then show ?thesis by blast
qed

subsection \<open>The target resolver\<close>






















end
